theory Spec2Isabelle
  imports Main "HOL-Library.Finite_Map" "HOL-Library.AList"
begin

section \<open>Data model\<close>

text \<open>
  An identifier is a class (abstract or constructible) used as a map key.  Keys are
  compared by identity, and the class carries a human-readable \<open>name\<close> that is only
  used in error messages; two different classes may have the same name.  The
  \<open>handle\<close> stands for the identity of the class object.
\<close>

datatype ident = Identifier (handle: nat) (name: string)

text \<open>
  Service objects.  \<open>Ref a\<close> is a value that lives outside the container (a registered
  instance, or whatever a factory hands out), identified by its reference \<open>a\<close>;
  \<open>New c args\<close> is the object made by \<open>new c(...args)\<close>.
\<close>

datatype val = Ref nat | New ident "val list"

text \<open>
  \<open>ServiceData\<close> is a union tagged by \<open>RegistrationType\<close>.  \<open>Container.get\<close> reads
  \<open>data.dependencies\<close> before it looks at the tag, so every variant carries that field.
\<close>

datatype service_data =
    ClassService (class_ref: ident) (dependencies: "ident list") (autowire: bool)
  | InstanceService (instance_value: val) (dependencies: "ident list")
  | FactoryService (factory: "unit \<Rightarrow> val") (dependencies: "ident list")

text \<open>
  Every failure of the source is a thrown \<open>Error\<close> with a message.  The two
  constructors keep apart the two places that throw and carry the identifier whose name
  the message prints; \<open>message\<close> renders the text.
\<close>

datatype error =
    UnregisteredLookup ident
  | DependencyArityMismatch ident

fun message :: "error \<Rightarrow> string" where
  "message (UnregisteredLookup i) = ''Service not registered for: '' @ name i"
| "message (DependencyArityMismatch i) =
     ''Dependencies must be provided for non autowired services. Service with missing dependencies: '' @ name i"

section \<open>UseClass: building a by-class registration\<close>

text \<open>
  The reflection module (\<open>getDependencyCount\<close>, \<open>getDependencies\<close>) is imported by the
  source and taken here as a parameter.  Each call to it is logged, so that a statement
  about when the provider is asked can be made.
\<close>

record reflection =
  getDependencyCount :: "ident \<Rightarrow> nat"
  getDependenciesOf :: "ident \<Rightarrow> ident list"

datatype query = DependencyCountQuery ident | DependenciesQuery ident

record build_options =
  options_autowire :: bool

record use_class =
  newable :: ident
  this_dependencies :: "ident list"
  this_autowire :: bool

definition createBuildable :: "ident \<Rightarrow> use_class" where
  "createBuildable c = \<lparr>newable = c, this_dependencies = [], this_autowire = True\<rparr>"

definition withDependencies :: "ident list \<Rightarrow> use_class \<Rightarrow> use_class" where
  "withDependencies ds this = this\<lparr>this_dependencies := ds, this_autowire := False\<rparr>"

text \<open>
  The method mutates \<open>this.dependencies\<close>; the model returns the updated object, or the
  error thrown, together with the provider calls made.  \<open>&&\<close> evaluates its right operand
  only when the left one holds, so the count is asked for only when auto-wiring is off.
\<close>

definition setDependencyInformationIfNotExist ::
  "reflection \<Rightarrow> ident \<Rightarrow> build_options \<Rightarrow> use_class \<Rightarrow> query list \<times> (error + use_class)"
where
  "setDependencyInformationIfNotExist r ident options this =
     (let aw = (options_autowire options \<and> this_autowire this) in
      if \<not> aw then
        (if getDependencyCount r (newable this) > length (this_dependencies this)
         then ([DependencyCountQuery (newable this)], Inl (DependencyArityMismatch ident))
         else ([DependencyCountQuery (newable this)], Inr this))
      else
        ([DependenciesQuery (newable this)],
         Inr (this\<lparr>this_dependencies := getDependenciesOf r (newable this)\<rparr>)))"

definition UseClass_build ::
  "reflection \<Rightarrow> build_options \<Rightarrow> use_class \<Rightarrow> query list \<times> (error + service_data)"
where
  "UseClass_build r options this =
     (case setDependencyInformationIfNotExist r (newable this) options this of
        (qs, Inl e) \<Rightarrow> (qs, Inl e)
      | (qs, Inr this') \<Rightarrow>
          (qs, Inr (ClassService (newable this') (this_dependencies this') (this_autowire this'))))"

section \<open>Container: resolution\<close>

type_synonym service_graph = "(ident, service_data) fmap"

datatype container = Container (services: service_graph)

definition findServiceDataOrThrow :: "service_graph \<Rightarrow> ident \<Rightarrow> error + service_data" where
  "findServiceDataOrThrow g i =
     (case fmlookup g i of None \<Rightarrow> Inl (UnregisteredLookup i) | Some service \<Rightarrow> Inr service)"

text \<open>
  \<open>get\<close> and \<open>getDependencies\<close> call each other, and nothing in the source bounds the
  depth.  The first argument is the number of nested \<open>get\<close> calls allowed; \<open>None\<close>
  means that this depth was not enough.  A thrown error is \<open>Some (Inl e)\<close>.
\<close>

fun get :: "nat \<Rightarrow> service_graph \<Rightarrow> ident \<Rightarrow> (error + val) option"
  and getDependencies :: "nat \<Rightarrow> service_graph \<Rightarrow> ident list \<Rightarrow> (error + val list) option"
where
  "get 0 g i = None"
| "get (Suc n) g i =
     (case findServiceDataOrThrow g i of
        Inl e \<Rightarrow> Some (Inl e)
      | Inr data \<Rightarrow>
          (case getDependencies n g (dependencies data) of
             None \<Rightarrow> None
           | Some (Inl e) \<Rightarrow> Some (Inl e)
           | Some (Inr deps) \<Rightarrow>
               Some (Inr (case data of
                            ClassService c _ _ \<Rightarrow> New c deps
                          | InstanceService v _ \<Rightarrow> v
                          | FactoryService f _ \<Rightarrow> f ()))))"
| "getDependencies n g [] = Some (Inr [])"
| "getDependencies n g (d # ds) =
     (case get n g d of
        None \<Rightarrow> None
      | Some (Inl e) \<Rightarrow> Some (Inl e)
      | Some (Inr v) \<Rightarrow>
          (case getDependencies n g ds of
             None \<Rightarrow> None
           | Some (Inl e) \<Rightarrow> Some (Inl e)
           | Some (Inr vs) \<Rightarrow> Some (Inr (v # vs))))"

definition Container_get :: "nat \<Rightarrow> container \<Rightarrow> ident \<Rightarrow> (error + val) option" where
  "Container_get n c i = get n (services c) i"

text \<open>
  The dependency relation of a graph: an identifier is related to every element of the
  \<open>dependencies\<close> of its entry.  These are the calls that \<open>getDependencies\<close> makes, for
  an entry of any variant.
\<close>

definition dependency_relation :: "service_graph \<Rightarrow> (ident \<times> ident) set" where
  "dependency_relation g =
     {(i, d). \<exists>sd. fmlookup g i = Some sd \<and> d \<in> set (dependencies sd)}"

text \<open>
  The completeness guarantee of a service graph: every identifier that an entry lists
  is a key.  In a graph whose by-instance and by-factory entries list nothing, this
  says that every dependency identifier of every by-class strategy is registered.
\<close>

definition dependencies_registered :: "service_graph \<Rightarrow> bool" where
  "dependencies_registered g =
     (\<forall>i sd. fmlookup g i = Some sd \<longrightarrow> (\<forall>d\<in>set (dependencies sd). fmlookup g d \<noteq> None))"

section \<open>Builder: finalising and validating the registrations\<close>

text \<open>
  Modelled from the spec: the pending registration of one identifier (the Builder and
  the by-instance and by-factory strategies are not among the sources).  A by-class
  registration is the \<open>UseClass\<close> object of the source.
\<close>

datatype pending = UseClass use_class | UseInstance val | UseFactory "unit \<Rightarrow> val"

type_synonym pending_registry = "(ident \<times> pending) list"

text \<open>
  Modelled from the spec: the build-time failures (the Builder is not among the
  sources).  \<open>StrategyError\<close> is an error thrown while one strategy is built, which for
  a by-class registration is the arity error of \<open>UseClass\<close>; the other two come from the
  graph-wide checks and carry the dependant with the missing identifier, and the ordered
  cycle.
\<close>

datatype build_error =
    StrategyError error
  | UnregisteredDependency ident ident
  | CircularDependency "ident list"

text \<open>
  Modelled from the spec: \<open>register(identifier)\<close> completed by one of the use operations.
  Registering an identifier again replaces its pending strategy (last write wins).
\<close>

definition register :: "ident \<Rightarrow> pending \<Rightarrow> pending_registry \<Rightarrow> pending_registry" where
  "register i p reg = AList.update i p reg"

text \<open>
  Modelled from the spec: \<open>useClass(newable, explicitDependencies?)\<close>.  Without a list
  auto-wiring stays requested; with one, the list is kept and auto-wiring is cleared.
\<close>

definition useClass :: "ident \<Rightarrow> ident list option \<Rightarrow> pending" where
  "useClass c explicitDependencies =
     (case explicitDependencies of
        None \<Rightarrow> UseClass (createBuildable c)
      | Some ds \<Rightarrow> UseClass (withDependencies ds (createBuildable c)))"

text \<open>
  Modelled from the spec: building one strategy.  By-class goes through
  \<open>UseClass_build\<close> of the source; by-instance and by-factory hold no dependencies.
\<close>

fun build_strategy :: "reflection \<Rightarrow> build_options \<Rightarrow> pending \<Rightarrow> error + service_data" where
  "build_strategy r options (UseClass u) = snd (UseClass_build r options u)"
| "build_strategy r options (UseInstance v) = Inr (InstanceService v [])"
| "build_strategy r options (UseFactory f) = Inr (FactoryService f [])"

text \<open>
  Modelled from the spec: every pending registration is built, in turn, before the two
  graph-wide checks; the first strategy that fails to build fails the whole build.
\<close>

fun finalize ::
  "reflection \<Rightarrow> build_options \<Rightarrow> pending_registry \<Rightarrow> error + (ident \<times> service_data) list"
where
  "finalize r options [] = Inr []"
| "finalize r options ((i, p) # reg) =
     (case build_strategy r options p of
        Inl e \<Rightarrow> Inl e
      | Inr sd \<Rightarrow>
          (case finalize r options reg of
             Inl e \<Rightarrow> Inl e
           | Inr fin \<Rightarrow> Inr ((i, sd) # fin)))"

text \<open>
  Modelled from the spec: the completeness check.  For every by-class strategy and every
  identifier of its dependency list that is not a key of the registry, one error naming
  the dependant and the missing dependency.
\<close>

definition missing_dependencies :: "(ident \<times> service_data) list \<Rightarrow> build_error list" where
  "missing_dependencies fin =
     concat (map (\<lambda>(i, sd).
       (case sd of
          ClassService c ds a \<Rightarrow>
            map (UnregisteredDependency i) (filter (\<lambda>d. map_of fin d = None) ds)
        | InstanceService v ds \<Rightarrow> []
        | FactoryService f ds \<Rightarrow> [])) fin)"

text \<open>
  Modelled from the spec: the edges of the dependency graph.  A by-class identifier has
  an edge to each declared dependency; by-instance and by-factory identifiers, and
  identifiers that are not registered, are leaves.
\<close>

definition successors :: "(ident \<times> service_data) list \<Rightarrow> ident \<Rightarrow> ident list" where
  "successors fin i =
     (case map_of fin i of
        Some (ClassService c ds a) \<Rightarrow> ds
      | Some (InstanceService v ds) \<Rightarrow> []
      | Some (FactoryService f ds) \<Rightarrow> []
      | None \<Rightarrow> [])"

lemma successors_key: "successors fin n \<noteq> [] \<Longrightarrow> n \<in> fst ` set fin"
  by (cases "map_of fin n") (auto simp: successors_def dest: map_of_SomeD intro: rev_image_eqI)

text \<open>
  Modelled from the spec: the depth-first traversal with three colours.  \<open>path\<close> holds
  the in-progress nodes, the most recent first; \<open>finished\<close> holds the done nodes; every
  other node is unvisited.  Meeting an in-progress node again ends the traversal with the
  loop, which starts and ends at that node.
\<close>

function visit ::
    "(ident \<times> service_data) list \<Rightarrow> ident list \<Rightarrow> ident list \<Rightarrow> ident \<Rightarrow> ident list + ident list"
  and visit_all ::
    "(ident \<times> service_data) list \<Rightarrow> ident list \<Rightarrow> ident list \<Rightarrow> ident list \<Rightarrow> ident list + ident list"
where
  "visit fin path finished n =
     (if n \<in> set path then Inl (n # rev (takeWhile (\<lambda>m. m \<noteq> n) path) @ [n])
      else if n \<in> set finished then Inr finished
      else (case visit_all fin (n # path) finished (successors fin n) of
              Inl c \<Rightarrow> Inl c
            | Inr finished' \<Rightarrow> Inr (n # finished')))"
| "visit_all fin path finished [] = Inr finished"
| "visit_all fin path finished (d # ds) =
     (case visit fin path finished d of
        Inl c \<Rightarrow> Inl c
      | Inr finished' \<Rightarrow> visit_all fin path finished' ds)"
  by pat_completeness auto

termination
proof (relation
    "(\<lambda>x. case x of
        Inl (fin, path, finished, n) \<Rightarrow> Suc (card (fst ` set fin - set path))
      | Inr (fin, path, finished, ds) \<Rightarrow>
          (if ds = [] then 0 else Suc (card (fst ` set fin - set path))))
     <*mlex*> (\<lambda>x. case x of
        Inl (fin, path, finished, n) \<Rightarrow> 0
      | Inr (fin, path, finished, ds) \<Rightarrow> Suc (length ds)) <*mlex*> {}",
    goal_cases)
  case 1
  show ?case by (simp add: wf_mlex)
next
  case (2 fin path finished n)
  show ?case
  proof (cases "successors fin n = []")
    case True
    then show ?thesis by (simp add: mlex_prod_def)
  next
    case False
    then have "n \<in> fst ` set fin" by (rule successors_key)
    with 2 have "card (fst ` set fin - set (n # path)) < card (fst ` set fin - set path)"
      by (intro psubset_card_mono) auto
    with False show ?thesis by (simp add: mlex_prod_def)
  qed
next
  case (3 fin path finished d ds)
  show ?case by (simp add: mlex_prod_def)
next
  case (4 fin path finished d ds x)
  show ?case by (cases ds) (simp_all add: mlex_prod_def)
qed

declare visit.simps [simp del]

text \<open>
  Modelled from the spec: the cycle check starts a traversal at every key of the
  registry, keeping the done nodes from one start to the next.
\<close>

definition find_cycle :: "(ident \<times> service_data) list \<Rightarrow> ident list option" where
  "find_cycle fin =
     (case visit_all fin [] [] (map fst fin) of Inl c \<Rightarrow> Some c | Inr finished \<Rightarrow> None)"

text \<open>
  The vocabulary of the cycle check: the edge relation of the dependency graph; a list
  of nodes in which the successors of each node occur further to the right; a walk along
  edges; and a loop, which is a walk of at least one edge that ends where it starts.
\<close>

definition edges :: "(ident \<times> service_data) list \<Rightarrow> (ident \<times> ident) set" where
  "edges fin = {(a, b). b \<in> set (successors fin a)}"

fun topologically_ordered :: "(ident \<times> service_data) list \<Rightarrow> ident list \<Rightarrow> bool" where
  "topologically_ordered fin [] = True"
| "topologically_ordered fin (x # xs) =
     (set (successors fin x) \<subseteq> set xs \<and> topologically_ordered fin xs)"

fun chain :: "(ident \<times> service_data) list \<Rightarrow> ident list \<Rightarrow> bool" where
  "chain fin [] = True"
| "chain fin [x] = True"
| "chain fin (x # y # ys) = (y \<in> set (successors fin x) \<and> chain fin (y # ys))"

definition is_cycle :: "(ident \<times> service_data) list \<Rightarrow> ident list \<Rightarrow> bool" where
  "is_cycle fin c = (2 \<le> length c \<and> hd c = last c \<and> chain fin c)"

text \<open>
  Modelled from the spec: both graph checks run to completion and report.
\<close>

definition validate :: "(ident \<times> service_data) list \<Rightarrow> build_error list" where
  "validate fin =
     missing_dependencies fin @
     (case find_cycle fin of None \<Rightarrow> [] | Some c \<Rightarrow> [CircularDependency c])"

text \<open>
  Modelled from the spec: \<open>build(options)\<close>.  Either a container wrapping the validated
  graph, or the errors and no container.
\<close>

definition Builder_build ::
  "reflection \<Rightarrow> build_options \<Rightarrow> pending_registry \<Rightarrow> build_error list + container"
where
  "Builder_build r options reg =
     (case finalize r options reg of
        Inl e \<Rightarrow> Inl [StrategyError e]
      | Inr fin \<Rightarrow>
          (if validate fin = [] then Inr (Container (fmap_of_list fin))
           else Inl (validate fin)))"

section \<open>Example registrations\<close>

abbreviation A_id :: ident where "A_id \<equiv> Identifier 0 ''A''"

abbreviation B_id :: ident where "B_id \<equiv> Identifier 1 ''B''"

abbreviation C_id :: ident where "C_id \<equiv> Identifier 2 ''C''"

abbreviation D_id :: ident where "D_id \<equiv> Identifier 3 ''D''"

definition example_graph :: service_graph where
  "example_graph = fmap_of_list
     [(A_id, ClassService A_id [B_id, C_id] False),
      (B_id, InstanceService (Ref 7) []),
      (C_id, FactoryService (\<lambda>u. Ref 8) []),
      (D_id, ClassService A_id [C_id, B_id] False)]"

definition dangling_factory_graph :: service_graph where
  "dangling_factory_graph = fmap_of_list
     [(A_id, FactoryService (\<lambda>u. Ref 8) [B_id, C_id]), (B_id, InstanceService (Ref 7) [])]"

definition cyclic_registry :: pending_registry where
  "cyclic_registry =
     register B_id (useClass B_id (Some [A_id])) (register A_id (useClass A_id (Some [B_id])) [])"

definition dangling_registry :: pending_registry where
  "dangling_registry = register A_id (useClass A_id (Some [B_id])) []"

definition chain_registry :: pending_registry where
  "chain_registry =
     register C_id (useClass C_id (Some [B_id]))
       (register B_id (useClass B_id (Some [A_id]))
          (register A_id (useClass A_id (Some [])) []))"

definition instance_registry :: pending_registry where
  "instance_registry =
     register A_id (useClass A_id (Some [B_id])) (register B_id (UseInstance (Ref 7)) [])"

definition self_dependent_registry :: pending_registry where
  "self_dependent_registry = register A_id (useClass A_id (Some [A_id])) []"

definition binary_reflection :: reflection where
  "binary_reflection = \<lparr>getDependencyCount = (\<lambda>c. 2), getDependenciesOf = (\<lambda>c. [B_id, C_id])\<rparr>"

definition nullary_reflection :: reflection where
  "nullary_reflection = \<lparr>getDependencyCount = (\<lambda>c. 0), getDependenciesOf = (\<lambda>c. [])\<rparr>"

section \<open>UseClass: arity check and auto-wiring\<close>

text \<open>
  C4.  A by-class registration with explicit dependencies (\<open>withDependencies ds\<close>, which
  clears the auto-wire flag) fails to build exactly when \<open>ds\<close> is shorter than the
  parameter count the provider reports for the class; a list of the same or a greater
  length builds, whatever the global option is.  The error names the class passed as
  \<open>identifier\<close> to \<open>setDependencyInformationIfNotExist\<close>, which is \<open>this.newable\<close>.
\<close>

theorem explicit_dependencies_arity:
  "snd (UseClass_build r options (withDependencies ds u)) =
     (if length ds < getDependencyCount r (newable u)
      then Inl (DependencyArityMismatch (newable u))
      else Inr (ClassService (newable u) ds False))
   \<and> message (DependencyArityMismatch (newable u)) =
     ''Dependencies must be provided for non autowired services. Service with missing dependencies: ''
       @ name (newable u)"
  by (simp add: UseClass_build_def setDependencyInformationIfNotExist_def withDependencies_def)

theorem explicit_dependencies_arity_witness:
  "snd (UseClass_build binary_reflection \<lparr>options_autowire = True\<rparr>
          (withDependencies [B_id] (createBuildable A_id)))
     = Inl (DependencyArityMismatch A_id)
   \<and> snd (UseClass_build binary_reflection \<lparr>options_autowire = True\<rparr>
          (withDependencies [B_id, C_id, A_id] (createBuildable A_id)))
     = Inr (ClassService A_id [B_id, C_id, A_id] False)"
  using explicit_dependencies_arity
          [of binary_reflection "\<lparr>options_autowire = True\<rparr>" "[B_id]" "createBuildable A_id"]
        explicit_dependencies_arity
          [of binary_reflection "\<lparr>options_autowire = True\<rparr>" "[B_id, C_id, A_id]"
              "createBuildable A_id"]
  by (simp add: binary_reflection_def createBuildable_def)

text \<open>
  C6.  Building a by-class registration asks the provider for the dependency identifiers
  of the class if and only if the global option and the flag of the registration both
  hold, and then stores the provider's list.  \<open>withDependencies\<close> clears the flag; the
  strategy built from such a registration holds the supplied list unchanged, and the
  result is the same for any two providers that agree on the parameter count.
\<close>

theorem provider_queried_iff_autowire:
  "((\<exists>c. DependenciesQuery c \<in> set (fst (UseClass_build r options u)))
      \<longleftrightarrow> options_autowire options \<and> this_autowire u)
   \<and> (options_autowire options \<and> this_autowire u \<longrightarrow>
        UseClass_build r options u =
          ([DependenciesQuery (newable u)],
           Inr (ClassService (newable u) (getDependenciesOf r (newable u)) True)))
   \<and> this_autowire (withDependencies ds u) = False
   \<and> (\<forall>sd. snd (UseClass_build r options (withDependencies ds u)) = Inr sd
          \<longrightarrow> dependencies sd = ds)
   \<and> (getDependencyCount r (newable u) \<le> length ds \<longrightarrow>
        UseClass_build r options (withDependencies ds u) =
          ([DependencyCountQuery (newable u)], Inr (ClassService (newable u) ds False)))
   \<and> (\<forall>r'. getDependencyCount r' = getDependencyCount r \<longrightarrow>
          UseClass_build r' options (withDependencies ds u)
            = UseClass_build r options (withDependencies ds u))"
  by (auto simp: UseClass_build_def setDependencyInformationIfNotExist_def withDependencies_def
           split: if_splits)

theorem provider_queried_iff_autowire_witness:
  "UseClass_build binary_reflection \<lparr>options_autowire = True\<rparr> (createBuildable A_id)
     = ([DependenciesQuery A_id], Inr (ClassService A_id [B_id, C_id] True))
   \<and> UseClass_build binary_reflection \<lparr>options_autowire = True\<rparr>
        (withDependencies [C_id, B_id] (createBuildable A_id))
     = ([DependencyCountQuery A_id], Inr (ClassService A_id [C_id, B_id] False))"
  using provider_queried_iff_autowire
          [of binary_reflection "\<lparr>options_autowire = True\<rparr>" "createBuildable A_id"
              "[C_id, B_id]"]
  by (simp add: binary_reflection_def createBuildable_def)

text \<open>
  C10.  A by-class registration on which \<open>withDependencies\<close> was never called still has
  its auto-wire flag set and an empty dependency list.  Built with the global option
  \<open>autowire\<close> false, it throws the missing-dependencies error whenever the provider
  reports a parameter count greater than zero, and builds with an empty list otherwise.
\<close>

theorem autowire_off_globally_arity:
  "\<not> options_autowire options \<Longrightarrow>
     snd (UseClass_build r options (createBuildable c)) =
       (if 0 < getDependencyCount r c
        then Inl (DependencyArityMismatch c)
        else Inr (ClassService c [] True))"
  by (simp add: UseClass_build_def setDependencyInformationIfNotExist_def createBuildable_def)

theorem autowire_off_globally_arity_witness:
  "\<not> options_autowire \<lparr>options_autowire = False\<rparr>
   \<and> snd (UseClass_build binary_reflection \<lparr>options_autowire = False\<rparr> (createBuildable A_id))
       = Inl (DependencyArityMismatch A_id)"
  using autowire_off_globally_arity
          [of "\<lparr>options_autowire = False\<rparr>" binary_reflection A_id]
  by (simp add: binary_reflection_def)

section \<open>Container: properties of resolution\<close>

lemma get_Suc_mono:
  "get n g i = Some r \<Longrightarrow> get (Suc n) g i = Some r"
  "getDependencies n g ds = Some rs \<Longrightarrow> getDependencies (Suc n) g ds = Some rs"
proof (induction n g i and n g ds arbitrary: r and rs rule: get_getDependencies.induct)
  case (1 g i)
  then show ?case by simp
next
  case (2 n g i)
  then show ?case
    by (auto split: sum.splits option.splits)
next
  case (3 n g)
  then show ?case by simp
next
  case (4 n g d ds)
  then show ?case
    by (auto split: sum.splits option.splits)
qed

lemma get_mono: "n \<le> m \<Longrightarrow> get n g i = Some r \<Longrightarrow> get m g i = Some r"
  by (induction m) (auto simp: le_Suc_eq get_Suc_mono(1) simp del: get.simps)

lemma getDependencies_total:
  "(\<forall>d\<in>set ds. \<exists>r. get n g d = Some r) \<Longrightarrow> \<exists>rs. getDependencies n g ds = Some rs"
  by (induction ds) (auto split: sum.splits option.splits)

lemma common_depth:
  "(\<forall>d\<in>set ds. \<exists>n r. get n g d = Some r) \<Longrightarrow> \<exists>N. \<forall>d\<in>set ds. \<exists>r. get N g d = Some r"
proof (induction ds)
  case Nil
  then show ?case by simp
next
  case (Cons d ds)
  then obtain N where N: "\<forall>d\<in>set ds. \<exists>r. get N g d = Some r" by auto
  from Cons.prems obtain n r where n: "get n g d = Some r" by auto
  have "get (max n N) g d = Some r"
    using n by (rule get_mono [rotated]) simp
  moreover have "\<exists>r. get (max n N) g x = Some r" if "x \<in> set ds" for x
  proof -
    from N that obtain r' where "get N g x = Some r'" by blast
    then have "get (max n N) g x = Some r'" by (rule get_mono [rotated]) simp
    then show ?thesis ..
  qed
  ultimately have "\<forall>x\<in>set (d # ds). \<exists>r. get (max n N) g x = Some r" by auto
  then show ?case ..
qed

lemma finite_dependency_relation: "finite (dependency_relation g)"
proof -
  have "dependency_relation g \<subseteq>
          (\<Union>i\<in>fmdom' g. (\<lambda>d. (i, d)) ` set (dependencies (the (fmlookup g i))))"
    by (auto simp: dependency_relation_def intro!: fmdom'I)
  moreover have "finite (\<Union>i\<in>fmdom' g. (\<lambda>d. (i, d)) ` set (dependencies (the (fmlookup g i))))"
    by simp
  ultimately show ?thesis by (rule finite_subset)
qed

lemma acyclic_get_terminates:
  assumes "acyclic (dependency_relation g)"
  shows "\<exists>n r. get n g i = Some r"
proof -
  have "wf ((dependency_relation g)\<inverse>)"
    using finite_dependency_relation assms by (rule finite_acyclic_wf_converse)
  then show ?thesis
  proof (induction i rule: wf_induct_rule)
    case (less i)
    show ?case
    proof (cases "fmlookup g i")
      case None
      then have "get (Suc 0) g i = Some (Inl (UnregisteredLookup i))"
        by (simp add: findServiceDataOrThrow_def)
      then show ?thesis by blast
    next
      case (Some sd)
      have "\<forall>d\<in>set (dependencies sd). \<exists>n r. get n g d = Some r"
        using less Some by (auto simp: dependency_relation_def)
      then obtain N where "\<forall>d\<in>set (dependencies sd). \<exists>r. get N g d = Some r"
        using common_depth by blast
      then obtain rs where "getDependencies N g (dependencies sd) = Some rs"
        using getDependencies_total by blast
      with Some have "\<exists>r. get (Suc N) g i = Some r"
        by (auto simp: findServiceDataOrThrow_def split: sum.splits)
      then show ?thesis by blast
    qed
  qed
qed

lemma get_error_names_absent:
  "get n g i = Some (Inl e) \<Longrightarrow> \<exists>j. e = UnregisteredLookup j \<and> fmlookup g j = None"
  "getDependencies n g ds = Some (Inl e) \<Longrightarrow> \<exists>j. e = UnregisteredLookup j \<and> fmlookup g j = None"
proof (induction n g i and n g ds arbitrary: e and e rule: get_getDependencies.induct)
  case (1 g i)
  then show ?case by simp
next
  case (2 n g i)
  then show ?case
    by (auto simp: findServiceDataOrThrow_def split: sum.splits option.splits)
next
  case (3 n g)
  then show ?case by simp
next
  case (4 n g d ds)
  then show ?case
    by (auto split: sum.splits option.splits)
qed

lemma getDependencies_list_all2:
  "getDependencies n g ds = Some (Inr vs) \<longleftrightarrow> list_all2 (\<lambda>d x. get n g d = Some (Inr x)) ds vs"
proof (induction ds arbitrary: vs)
  case Nil
  then show ?case by auto
next
  case (Cons d ds)
  show ?case
  proof (cases vs)
    case Nil
    then show ?thesis by (auto split: sum.splits option.splits)
  next
    case (Cons x xs)
    with Cons.IH [of xs] show ?thesis
      by (cases "get n g d"; cases "getDependencies n g ds")
         (auto split: sum.splits option.splits)
  qed
qed

lemma example_graph_relation:
  "dependency_relation example_graph = {(A_id, B_id), (A_id, C_id), (D_id, C_id), (D_id, B_id)}"
  by (auto simp: dependency_relation_def example_graph_def split: if_splits)

lemma example_graph_acyclic: "acyclic (dependency_relation example_graph)"
  unfolding example_graph_relation
  by (rule acyclicI_order [where f = "\<lambda>i. if i = A_id \<or> i = D_id then (1::nat) else 0"]) auto

text \<open>
  C2.  On a graph whose dependency relation is acyclic, \<open>get\<close> terminates for every
  identifier: some depth is enough for a result, which is a value or a thrown error.  The
  relation follows \<open>data.dependencies\<close> of every entry, as \<open>get\<close> does; in a graph whose
  by-instance and by-factory entries list nothing it is the relation of the by-class
  dependency lists.  That every listed identifier is a key is not needed for termination:
  a lookup of an identifier that is not a key ends the call with an error.
\<close>

theorem get_terminates:
  assumes "acyclic (dependency_relation g)"
  shows "\<exists>n r. get n g i = Some r"
  using assms by (rule acyclic_get_terminates)

theorem get_terminates_witness:
  "acyclic (dependency_relation example_graph) \<and> (\<exists>n r. get n example_graph A_id = Some r)"
  using get_terminates [OF example_graph_acyclic, of A_id] example_graph_acyclic by simp

lemma nth_rearranged:
  assumes "list_all2 P ds vs" and "set p \<subseteq> {..<length ds}"
  shows "list_all2 P (map ((!) ds) p) (map ((!) vs) p)"
  using assms by (auto simp: list_all2_conv_all_nth subset_iff)

lemma getDependencies_first_error:
  assumes "k < length ds"
    and "\<forall>j<k. \<exists>x. get n g (ds ! j) = Some (Inr x)"
    and "get n g (ds ! k) = Some (Inl e)"
  shows "getDependencies n g ds = Some (Inl e)"
  using assms
proof (induction ds arbitrary: k)
  case Nil
  then show ?case by simp
next
  case (Cons d ds)
  show ?case
  proof (cases k)
    case 0
    with Cons.prems show ?thesis by simp
  next
    case (Suc k')
    from Cons.prems Suc obtain x where x: "get n g d = Some (Inr x)" by fastforce
    have "getDependencies n g ds = Some (Inl e)"
    proof (rule Cons.IH [of k'])
      show "k' < length ds" using Cons.prems Suc by simp
      show "\<forall>j<k'. \<exists>x. get n g (ds ! j) = Some (Inr x)"
        using Cons.prems(2) Suc by (metis Suc_less_eq nth_Cons_Suc)
      show "get n g (ds ! k') = Some (Inl e)" using Cons.prems Suc by simp
    qed
    with x show ?thesis by simp
  qed
qed

text \<open>
  C7.  For a by-class entry with dependency list \<open>ds\<close>, \<open>get\<close> returns a value exactly
  when every identifier of \<open>ds\<close> resolves to a value, and the value is the class
  constructed with those values, position by position in the order of \<open>ds\<close>.  The list is
  resolved from the left: the error of the first identifier that fails is the error of
  \<open>get\<close>.  An entry whose list is \<open>ds\<close> rearranged by the index list \<open>p\<close> gets the same
  values rearranged by \<open>p\<close>.
\<close>

theorem class_dependencies_in_declared_order:
  assumes "fmlookup g i = Some (ClassService c ds a)"
  shows "(get (Suc n) g i = Some (Inr v)
            \<longleftrightarrow> (\<exists>vs. v = New c vs \<and> list_all2 (\<lambda>d x. get n g d = Some (Inr x)) ds vs))
       \<and> (k < length ds \<and> (\<forall>j<k. \<exists>x. get n g (ds ! j) = Some (Inr x))
            \<and> get n g (ds ! k) = Some (Inl e)
          \<longrightarrow> get (Suc n) g i = Some (Inl e))
       \<and> (fmlookup g i' = Some (ClassService c' (map ((!) ds) p) a')
            \<and> set p \<subseteq> {..<length ds} \<and> get (Suc n) g i = Some (Inr (New c vs))
          \<longrightarrow> get (Suc n) g i' = Some (Inr (New c' (map ((!) vs) p))))"
proof (intro conjI impI)
  show val_iff: "get (Suc n) g i = Some (Inr v)
      \<longleftrightarrow> (\<exists>vs. v = New c vs \<and> list_all2 (\<lambda>d x. get n g d = Some (Inr x)) ds vs)" for v
    using assms
    by (auto simp: findServiceDataOrThrow_def getDependencies_list_all2 [symmetric]
             split: sum.splits option.splits)
  show "get (Suc n) g i = Some (Inl e)"
    if "k < length ds \<and> (\<forall>j<k. \<exists>x. get n g (ds ! j) = Some (Inr x))
          \<and> get n g (ds ! k) = Some (Inl e)"
    using getDependencies_first_error [of k ds n g e] that assms
    by (simp add: findServiceDataOrThrow_def)
  show "get (Suc n) g i' = Some (Inr (New c' (map ((!) vs) p)))"
    if h: "fmlookup g i' = Some (ClassService c' (map ((!) ds) p) a')
          \<and> set p \<subseteq> {..<length ds} \<and> get (Suc n) g i = Some (Inr (New c vs))"
  proof -
    from h val_iff [of "New c vs"] have "list_all2 (\<lambda>d x. get n g d = Some (Inr x)) ds vs"
      by simp
    with h have "list_all2 (\<lambda>d x. get n g d = Some (Inr x)) (map ((!) ds) p) (map ((!) vs) p)"
      by (intro nth_rearranged) simp_all
    then have "getDependencies n g (map ((!) ds) p) = Some (Inr (map ((!) vs) p))"
      by (simp only: getDependencies_list_all2)
    with h show ?thesis by (simp add: findServiceDataOrThrow_def)
  qed
qed

theorem class_dependencies_in_declared_order_witness:
  "fmlookup example_graph A_id = Some (ClassService A_id [B_id, C_id] False)
   \<and> fmlookup example_graph D_id = Some (ClassService A_id [C_id, B_id] False)
   \<and> get (Suc (Suc 0)) example_graph A_id = Some (Inr (New A_id [Ref 7, Ref 8]))
   \<and> get (Suc (Suc 0)) example_graph D_id = Some (Inr (New A_id [Ref 8, Ref 7]))"
proof -
  have A: "fmlookup example_graph A_id = Some (ClassService A_id [B_id, C_id] False)"
    by (simp add: example_graph_def)
  have D: "fmlookup example_graph D_id = Some (ClassService A_id [C_id, B_id] False)"
    by (simp add: example_graph_def)
  have B: "get (Suc 0) example_graph B_id = Some (Inr (Ref 7))"
    by (simp add: example_graph_def findServiceDataOrThrow_def)
  have C: "get (Suc 0) example_graph C_id = Some (Inr (Ref 8))"
    by (simp add: example_graph_def findServiceDataOrThrow_def)
  note order = class_dependencies_in_declared_order [OF A, of "Suc 0"]
  have getA: "get (Suc (Suc 0)) example_graph A_id = Some (Inr (New A_id [Ref 7, Ref 8]))"
    using order [of "New A_id [Ref 7, Ref 8]"] B C by (simp del: get.simps)
  have "get (Suc (Suc 0)) example_graph D_id = Some (Inr (New A_id [Ref 8, Ref 7]))"
    using order [of _ _ _ D_id A_id "[Suc 0, 0]" False "[Ref 7, Ref 8]"] D getA
    by (simp del: get.simps)
  with A D getA show ?thesis by simp
qed

lemma get_absent_no_value: "fmlookup g d = None \<Longrightarrow> get m g d \<noteq> Some (Inr x)"
  by (cases m) (simp_all add: findServiceDataOrThrow_def)

lemma getDependencies_absent_no_value:
  "d \<in> set ds \<Longrightarrow> fmlookup g d = None \<Longrightarrow> getDependencies m g ds \<noteq> Some (Inr vs)"
  by (auto simp: getDependencies_list_all2 list_all2_conv_all_nth in_set_conv_nth
           dest: get_absent_no_value)

lemma getDependencies_first_absent:
  assumes "\<forall>p\<in>set pre. \<exists>x. get (Suc n) g p = Some (Inr x)" and "fmlookup g d = None"
  shows "getDependencies (Suc n) g (pre @ d # post) = Some (Inl (UnregisteredLookup d))"
  using assms
proof (induction pre)
  case Nil
  then show ?case by (simp add: findServiceDataOrThrow_def)
next
  case (Cons p pre)
  then obtain x where "get (Suc n) g p = Some (Inr x)" by auto
  moreover have "getDependencies (Suc n) g (pre @ d # post) = Some (Inl (UnregisteredLookup d))"
    using Cons by simp
  ultimately show ?case by (simp del: get.simps)
qed

text \<open>
  C9.  \<open>get\<close> resolves the dependency list of the entry before it looks at the variant.
  For an entry of any variant, an error or a non-termination of the list is that of
  \<open>get\<close>.  A by-instance entry returns its stored value, and a by-factory entry the
  result of its factory, exactly when every listed identifier resolves to a value; the
  resolved values are dropped.  If a listed identifier is not a key, \<open>get\<close> never returns
  a value: it throws the lookup error of the first such identifier when the identifiers
  before it resolve, and it throws some error on every acyclic graph.
\<close>

theorem dependencies_resolved_before_tag:
  assumes "fmlookup g i = Some sd"
  shows "(getDependencies n g (dependencies sd) = Some (Inl e) \<longrightarrow> get (Suc n) g i = Some (Inl e))
       \<and> (getDependencies n g (dependencies sd) = None \<longrightarrow> get (Suc n) g i = None)
       \<and> (\<forall>v ds. sd = InstanceService v ds \<longrightarrow>
            (get (Suc n) g i = Some (Inr r)
               \<longleftrightarrow> r = v \<and> (\<exists>vs. list_all2 (\<lambda>d x. get n g d = Some (Inr x)) ds vs)))
       \<and> (\<forall>f ds. sd = FactoryService f ds \<longrightarrow>
            (get (Suc n) g i = Some (Inr r)
               \<longleftrightarrow> r = f () \<and> (\<exists>vs. list_all2 (\<lambda>d x. get n g d = Some (Inr x)) ds vs)))
       \<and> (d \<in> set (dependencies sd) \<and> fmlookup g d = None \<longrightarrow>
            (\<forall>m r. get m g i \<noteq> Some (Inr r))
            \<and> (acyclic (dependency_relation g) \<longrightarrow> (\<exists>m e'. get m g i = Some (Inl e'))))
       \<and> (dependencies sd = pre @ d # post \<and> fmlookup g d = None
            \<and> (\<forall>p\<in>set pre. \<exists>x. get (Suc n) g p = Some (Inr x))
          \<longrightarrow> get (Suc (Suc n)) g i = Some (Inl (UnregisteredLookup d)))"
proof (intro conjI impI allI)
  show "get (Suc n) g i = Some (Inl e)" if "getDependencies n g (dependencies sd) = Some (Inl e)"
    using assms that by (simp add: findServiceDataOrThrow_def)
  show "get (Suc n) g i = None" if "getDependencies n g (dependencies sd) = None"
    using assms that by (simp add: findServiceDataOrThrow_def)
  show "get (Suc n) g i = Some (Inr r)
          \<longleftrightarrow> r = v \<and> (\<exists>vs. list_all2 (\<lambda>d x. get n g d = Some (Inr x)) ds vs)"
    if "sd = InstanceService v ds" for v ds
    using assms that
    by (auto simp: findServiceDataOrThrow_def getDependencies_list_all2 [symmetric]
             split: sum.splits option.splits)
  show "get (Suc n) g i = Some (Inr r)
          \<longleftrightarrow> r = f () \<and> (\<exists>vs. list_all2 (\<lambda>d x. get n g d = Some (Inr x)) ds vs)"
    if "sd = FactoryService f ds" for f ds
    using assms that
    by (auto simp: findServiceDataOrThrow_def getDependencies_list_all2 [symmetric]
             split: sum.splits option.splits)
  show no_value: "get m g i \<noteq> Some (Inr r)"
    if h: "d \<in> set (dependencies sd) \<and> fmlookup g d = None" for m r
  proof (cases m)
    case 0
    then show ?thesis by simp
  next
    case (Suc k)
    from h have "getDependencies k g (dependencies sd) \<noteq> Some (Inr vs')" for vs'
      using getDependencies_absent_no_value [of d "dependencies sd" g k vs'] by blast
    with assms Suc show ?thesis
      by (auto simp: findServiceDataOrThrow_def split: option.splits sum.splits)
  qed
  show "\<exists>m e'. get m g i = Some (Inl e')"
    if h: "d \<in> set (dependencies sd) \<and> fmlookup g d = None"
      and "acyclic (dependency_relation g)"
  proof -
    from that(2) obtain m r where "get m g i = Some r"
      using acyclic_get_terminates by blast
    with no_value [OF h, of m] show ?thesis by (cases r) auto
  qed
  show "get (Suc (Suc n)) g i = Some (Inl (UnregisteredLookup d))"
    if "dependencies sd = pre @ d # post \<and> fmlookup g d = None
          \<and> (\<forall>p\<in>set pre. \<exists>x. get (Suc n) g p = Some (Inr x))"
    using assms that getDependencies_first_absent [of pre n g d post]
    by (simp add: findServiceDataOrThrow_def del: getDependencies.simps)
qed

theorem dependencies_resolved_before_tag_witness:
  "fmlookup dangling_factory_graph A_id = Some (FactoryService (\<lambda>u. Ref 8) [B_id, C_id])
   \<and> fmlookup dangling_factory_graph C_id = None
   \<and> get (Suc 0) dangling_factory_graph B_id = Some (Inr (Ref 7))
   \<and> get (Suc (Suc 0)) dangling_factory_graph A_id = Some (Inl (UnregisteredLookup C_id))"
  using dependencies_resolved_before_tag
          [of dangling_factory_graph A_id "FactoryService (\<lambda>u. Ref 8) [B_id, C_id]"
              0 _ _ C_id "[B_id]" "[]"]
  by (simp add: dangling_factory_graph_def findServiceDataOrThrow_def)

section \<open>Builder: properties of validation\<close>

subsection \<open>The done nodes are in topological order\<close>

lemma visit_finished:
  "visit fin path finished n = Inr finished' \<Longrightarrow> topologically_ordered fin finished \<Longrightarrow>
     topologically_ordered fin finished' \<and> set finished \<subseteq> set finished' \<and> n \<in> set finished'"
  "visit_all fin path finished ds = Inr finished' \<Longrightarrow> topologically_ordered fin finished \<Longrightarrow>
     topologically_ordered fin finished' \<and> set finished \<subseteq> set finished' \<and> set ds \<subseteq> set finished'"
proof (induction fin path finished n and fin path finished ds arbitrary: finished' and finished'
       rule: visit_visit_all.induct)
  case (1 fin path finished n)
  show ?case
  proof (cases "n \<in> set path")
    case True
    with "1.prems" show ?thesis by (simp add: visit.simps)
  next
    case notpath: False
    show ?thesis
    proof (cases "n \<in> set finished")
      case True
      with notpath "1.prems" show ?thesis by (simp add: visit.simps)
    next
      case False
      with notpath "1.prems" obtain f where
        f: "visit_all fin (n # path) finished (successors fin n) = Inr f" and eq: "finished' = n # f"
        by (auto simp: visit.simps split: sum.splits)
      from "1.IH" [OF notpath False f "1.prems"(2)] eq show ?thesis by auto
    qed
  qed
next
  case (2 fin path finished)
  then show ?case by simp
next
  case (3 fin path finished d ds)
  from "3.prems" obtain f where
    f: "visit fin path finished d = Inr f" and rest: "visit_all fin path f ds = Inr finished'"
    by (auto split: sum.splits)
  from "3.IH"(1) [OF f "3.prems"(2)]
  have f_ok: "topologically_ordered fin f" "set finished \<subseteq> set f" "d \<in> set f" by auto
  from "3.IH"(2) [OF f rest f_ok(1)] f_ok show ?case by auto
qed

lemma topologically_ordered_closed:
  "topologically_ordered fin xs \<Longrightarrow> a \<in> set xs \<Longrightarrow> (a, b) \<in> edges fin \<Longrightarrow> b \<in> set xs"
  by (induction xs) (auto simp: edges_def)

lemma topologically_ordered_reach:
  assumes "(a, b) \<in> (edges fin)\<^sup>*" and "topologically_ordered fin xs" and "a \<in> set xs"
  shows "b \<in> set xs"
  using assms by (induction rule: rtrancl_induct) (auto dest: topologically_ordered_closed)

lemma topologically_ordered_acyclic:
  "topologically_ordered fin xs \<Longrightarrow> a \<in> set xs \<Longrightarrow> (a, a) \<notin> (edges fin)\<^sup>+"
proof (induction xs)
  case Nil
  then show ?case by simp
next
  case (Cons x xs)
  show ?case
  proof (cases "a \<in> set xs")
    case True
    with Cons show ?thesis by simp
  next
    case False
    with Cons.prems have ax: "a = x" by simp
    show ?thesis
    proof
      assume "(a, a) \<in> (edges fin)\<^sup>+"
      then obtain y where y: "(a, y) \<in> edges fin" "(y, a) \<in> (edges fin)\<^sup>*"
        by (auto dest: tranclD)
      from y(1) ax Cons.prems have "y \<in> set xs" by (auto simp: edges_def)
      with y(2) Cons.prems have "a \<in> set xs"
        by (auto dest: topologically_ordered_reach)
      with False show False by simp
    qed
  qed
qed

lemma cycle_found:
  assumes "(a, a) \<in> (edges fin)\<^sup>+"
  shows "\<exists>c. find_cycle fin = Some c"
proof (cases "visit_all fin [] [] (map fst fin)")
  case (Inl c)
  then show ?thesis by (simp add: find_cycle_def)
next
  case (Inr finished)
  from visit_finished(2) [OF Inr]
  have ordered: "topologically_ordered fin finished" and keys: "fst ` set fin \<subseteq> set finished"
    by auto
  from assms obtain y where "(a, y) \<in> edges fin" by (auto dest: tranclD)
  then have "successors fin a \<noteq> []" by (auto simp: edges_def)
  then have "a \<in> fst ` set fin" by (rule successors_key)
  with keys have "a \<in> set finished" by auto
  with ordered assms show ?thesis by (auto dest: topologically_ordered_acyclic)
qed

subsection \<open>The reported loop is a cycle of the graph\<close>

lemma chain_suffix: "chain fin (xs @ ys) \<Longrightarrow> chain fin ys"
  by (induction fin xs rule: chain.induct) (auto split: list.splits elim: chain.elims)

lemma chain_snoc:
  "chain fin (xs @ [x]) \<Longrightarrow> y \<in> set (successors fin x) \<Longrightarrow> chain fin (xs @ [x, y])"
  by (induction fin xs rule: chain.induct) auto

lemma loop_is_cycle:
  assumes "n \<in> set path" and "chain fin (rev path @ [n])"
  shows "is_cycle fin (n # rev (takeWhile (\<lambda>m. m \<noteq> n) path) @ [n])"
proof -
  let ?tw = "takeWhile (\<lambda>m. m \<noteq> n) path"
  let ?dw = "dropWhile (\<lambda>m. m \<noteq> n) path"
  from assms(1) have "?dw \<noteq> []" by (auto simp: dropWhile_eq_Nil_conv)
  moreover have "hd ?dw = n" using assms(1) hd_dropWhile [of "\<lambda>m. m \<noteq> n" path] calculation by auto
  ultimately obtain rest where dw: "?dw = n # rest" by (cases ?dw) auto
  have "path = ?tw @ n # rest" using takeWhile_dropWhile_id [of "\<lambda>m. m \<noteq> n" path] dw by simp
  then have "rev path @ [n] = rev rest @ (n # rev ?tw @ [n])"
    by (metis append.assoc append_Cons append_Nil rev.simps(2) rev_append)
  with assms(2) have "chain fin (n # rev ?tw @ [n])" by (metis chain_suffix)
  then show ?thesis by (simp add: is_cycle_def)
qed

lemma visit_reports_cycle:
  "visit fin path finished n = Inl c \<Longrightarrow> chain fin (rev path @ [n]) \<Longrightarrow> is_cycle fin c"
  "visit_all fin path finished ds = Inl c \<Longrightarrow> (\<forall>d\<in>set ds. chain fin (rev path @ [d])) \<Longrightarrow>
     is_cycle fin c"
proof (induction fin path finished n and fin path finished ds arbitrary: c and c
       rule: visit_visit_all.induct)
  case (1 fin path finished n)
  show ?case
  proof (cases "n \<in> set path")
    case True
    with "1.prems" show ?thesis by (auto simp: visit.simps intro: loop_is_cycle)
  next
    case notpath: False
    show ?thesis
    proof (cases "n \<in> set finished")
      case True
      with notpath "1.prems" show ?thesis by (simp add: visit.simps)
    next
      case False
      with notpath "1.prems" have
        c: "visit_all fin (n # path) finished (successors fin n) = Inl c"
        by (auto simp: visit.simps split: sum.splits)
      have "\<forall>d\<in>set (successors fin n). chain fin (rev (n # path) @ [d])"
        using "1.prems"(2) by (auto dest: chain_snoc)
      from "1.IH" [OF notpath False c this] show ?thesis .
    qed
  qed
next
  case (2 fin path finished)
  then show ?case by simp
next
  case (3 fin path finished d ds)
  show ?case
  proof (cases "visit fin path finished d")
    case (Inl c')
    with "3.prems" have "c' = c" by simp
    with "3.IH"(1) [of c] Inl "3.prems"(2) show ?thesis by simp
  next
    case (Inr f)
    with "3.prems" have "visit_all fin path f ds = Inl c" by simp
    from "3.IH"(2) [OF Inr this] "3.prems"(2) show ?thesis by simp
  qed
qed

lemma find_cycle_is_cycle: "find_cycle fin = Some c \<Longrightarrow> is_cycle fin c"
  using visit_reports_cycle(2) [of fin "[]" "[]" "map fst fin" c]
  by (auto simp: find_cycle_def split: sum.splits)

lemma chain_edges: "chain fin (x # xs) \<Longrightarrow> xs \<noteq> [] \<Longrightarrow> (x, last xs) \<in> (edges fin)\<^sup>+"
proof (induction xs arbitrary: x)
  case Nil
  then show ?case by simp
next
  case (Cons y ys)
  then have step: "(x, y) \<in> edges fin" by (simp add: edges_def)
  show ?case
  proof (cases ys)
    case Nil
    with step show ?thesis by auto
  next
    case (Cons z zs)
    with Cons.IH [of y] Cons.prems have "(y, last ys) \<in> (edges fin)\<^sup>+" by simp
    with step Cons show ?thesis by (auto intro: trancl_into_trancl2)
  qed
qed

lemma is_cycle_edges: "is_cycle fin c \<Longrightarrow> (hd c, hd c) \<in> (edges fin)\<^sup>+"
proof -
  assume c: "is_cycle fin c"
  then have "2 \<le> length c" by (simp add: is_cycle_def)
  then obtain x y ys where "c = x # y # ys"
    by (cases c; cases "tl c") auto
  with c chain_edges [of fin x "y # ys"] show ?thesis by (auto simp: is_cycle_def)
qed

lemma find_cycle_iff: "(\<exists>c. find_cycle fin = Some c) \<longleftrightarrow> (\<exists>a. (a, a) \<in> (edges fin)\<^sup>+)"
  using cycle_found find_cycle_is_cycle is_cycle_edges by blast

lemma finalize_keys: "finalize r options reg = Inr fin \<Longrightarrow> map fst fin = map fst reg"
  by (induction reg arbitrary: fin) (auto split: sum.splits)

lemma missing_dependency_reported:
  assumes "(i, ClassService c ds a) \<in> set fin" and "d \<in> set ds" and "d \<notin> fst ` set fin"
  shows "UnregisteredDependency i d \<in> set (missing_dependencies fin)"
proof -
  from assms(3) have "map_of fin d = None" by (simp add: map_of_eq_None_iff)
  with assms(1,2) show ?thesis
    unfolding missing_dependencies_def by (force simp: image_iff)
qed

subsection \<open>What build reports\<close>

text \<open>
  C1, as amended.  When every strategy of the registration set builds and the dependency
  graph of the built strategies has a cycle (a self-dependency included), \<open>build\<close>
  returns no container: it fails, and its errors include a CircularDependency whose list
  is a loop of the graph, starting and ending at the repeated identifier.
\<close>

theorem cyclic_registrations_rejected:
  assumes "finalize r options reg = Inr fin" and "(a, a) \<in> (edges fin)\<^sup>+"
  shows "\<exists>c es. Builder_build r options reg = Inl es \<and> CircularDependency c \<in> set es
           \<and> is_cycle fin c"
proof -
  from assms(2) obtain c where c: "find_cycle fin = Some c" using cycle_found by blast
  then have "is_cycle fin c" by (rule find_cycle_is_cycle)
  moreover from c have "CircularDependency c \<in> set (validate fin)" by (simp add: validate_def)
  moreover from this have "validate fin \<noteq> []" by auto
  with assms(1) have "Builder_build r options reg = Inl (validate fin)"
    by (simp add: Builder_build_def)
  ultimately show ?thesis by blast
qed

lemma cyclic_registry_finalize:
  "finalize nullary_reflection \<lparr>options_autowire = True\<rparr> cyclic_registry =
     Inr [(A_id, ClassService A_id [B_id] False), (B_id, ClassService B_id [A_id] False)]"
  by (simp add: cyclic_registry_def register_def useClass_def UseClass_build_def
        setDependencyInformationIfNotExist_def withDependencies_def createBuildable_def
        nullary_reflection_def)

lemma cyclic_registry_validate:
  "validate [(A_id, ClassService A_id [B_id] False), (B_id, ClassService B_id [A_id] False)]
     = [CircularDependency [A_id, B_id, A_id]]"
  by (simp add: validate_def missing_dependencies_def find_cycle_def visit.simps successors_def)

theorem cyclic_registrations_rejected_witness:
  "finalize nullary_reflection \<lparr>options_autowire = True\<rparr> cyclic_registry =
     Inr [(A_id, ClassService A_id [B_id] False), (B_id, ClassService B_id [A_id] False)]
   \<and> (A_id, A_id) \<in> (edges [(A_id, ClassService A_id [B_id] False),
                            (B_id, ClassService B_id [A_id] False)])\<^sup>+
   \<and> Builder_build nullary_reflection \<lparr>options_autowire = True\<rparr> cyclic_registry
       = Inl [CircularDependency [A_id, B_id, A_id]]"
proof -
  let ?fin = "[(A_id, ClassService A_id [B_id] False), (B_id, ClassService B_id [A_id] False)]"
  have "(A_id, B_id) \<in> edges ?fin" and "(B_id, A_id) \<in> edges ?fin"
    by (auto simp: edges_def successors_def)
  then have loop: "(A_id, A_id) \<in> (edges ?fin)\<^sup>+" by (rule trancl_into_trancl [OF r_into_trancl])
  from cyclic_registrations_rejected [OF cyclic_registry_finalize loop]
  show ?thesis
    using loop cyclic_registry_finalize cyclic_registry_validate
    by (simp add: Builder_build_def)
qed

text \<open>
  C1 as stated fails when a registration of the cycle does not pass the arity check: the
  class is registered with itself as its only dependency, the provider reports two
  parameters, and \<open>build\<close> fails with the arity error alone.
\<close>

theorem arity_before_cycle_counterexample:
  "useClass A_id (Some [A_id])
     = UseClass \<lparr>newable = A_id, this_dependencies = [A_id], this_autowire = False\<rparr>
   \<and> Builder_build binary_reflection \<lparr>options_autowire = True\<rparr> self_dependent_registry
       = Inl [StrategyError (DependencyArityMismatch A_id)]"
  by (simp add: self_dependent_registry_def register_def useClass_def UseClass_build_def
        setDependencyInformationIfNotExist_def withDependencies_def createBuildable_def
        binary_reflection_def Builder_build_def)

text \<open>
  C3, as amended.  When every strategy of the registration set builds and the dependency
  list of some by-class strategy contains an identifier that is not a key of the
  registry, \<open>build\<close> returns no container: it fails, and its errors include an
  UnregisteredDependency carrying the dependant and the missing identifier.
\<close>

theorem unregistered_dependency_rejected:
  assumes "finalize r options reg = Inr fin" and "(i, ClassService c ds a) \<in> set fin"
    and "d \<in> set ds" and "d \<notin> fst ` set reg"
  shows "\<exists>es. Builder_build r options reg = Inl es \<and> UnregisteredDependency i d \<in> set es"
proof -
  from assms(1) have "fst ` set fin = fst ` set reg"
    by (metis finalize_keys set_map)
  with assms have "UnregisteredDependency i d \<in> set (missing_dependencies fin)"
    by (auto intro: missing_dependency_reported)
  then have "UnregisteredDependency i d \<in> set (validate fin)" by (simp add: validate_def)
  moreover from this have "validate fin \<noteq> []" by auto
  with assms(1) have "Builder_build r options reg = Inl (validate fin)"
    by (simp add: Builder_build_def)
  ultimately show ?thesis by blast
qed

theorem unregistered_dependency_rejected_witness:
  "finalize nullary_reflection \<lparr>options_autowire = True\<rparr> dangling_registry
     = Inr [(A_id, ClassService A_id [B_id] False)]
   \<and> B_id \<notin> fst ` set dangling_registry
   \<and> Builder_build nullary_reflection \<lparr>options_autowire = True\<rparr> dangling_registry
       = Inl [UnregisteredDependency A_id B_id]"
proof -
  have fin: "finalize nullary_reflection \<lparr>options_autowire = True\<rparr> dangling_registry
     = Inr [(A_id, ClassService A_id [B_id] False)]"
    by (simp add: dangling_registry_def register_def useClass_def UseClass_build_def
        setDependencyInformationIfNotExist_def withDependencies_def createBuildable_def
        nullary_reflection_def)
  have key: "B_id \<notin> fst ` set dangling_registry"
    by (simp add: dangling_registry_def register_def)
  have "validate [(A_id, ClassService A_id [B_id] False)] = [UnregisteredDependency A_id B_id]"
    by (simp add: validate_def missing_dependencies_def find_cycle_def visit.simps successors_def)
  with unregistered_dependency_rejected [OF fin _ _ key, of A_id A_id "[B_id]" False] fin key
  show ?thesis by (simp add: Builder_build_def)
qed

text \<open>
  C3 as stated fails when the registration with the missing dependency does not pass the
  arity check: \<open>build\<close> fails with the arity error alone.
\<close>

theorem arity_before_completeness_counterexample:
  "useClass A_id (Some [B_id])
     = UseClass \<lparr>newable = A_id, this_dependencies = [B_id], this_autowire = False\<rparr>
   \<and> B_id \<notin> fst ` set dangling_registry
   \<and> Builder_build binary_reflection \<lparr>options_autowire = True\<rparr> dangling_registry
       = Inl [StrategyError (DependencyArityMismatch A_id)]"
  by (simp add: dangling_registry_def register_def useClass_def UseClass_build_def
        setDependencyInformationIfNotExist_def withDependencies_def createBuildable_def
        binary_reflection_def Builder_build_def)

text \<open>
  The scenario of three classes in a row: \<open>A\<close> without dependencies, \<open>B\<close> depending on
  \<open>A\<close>, \<open>C\<close> depending on \<open>B\<close>.  The build succeeds, and resolving \<open>C\<close> constructs
  \<open>A\<close>, then \<open>B\<close> with it, then \<open>C\<close>.
\<close>

lemma chain_registry_builds:
  "Builder_build nullary_reflection \<lparr>options_autowire = True\<rparr> chain_registry
     = Inr (Container (fmap_of_list
         [(A_id, ClassService A_id [] False), (B_id, ClassService B_id [A_id] False),
          (C_id, ClassService C_id [B_id] False)]))"
  by (simp add: chain_registry_def register_def useClass_def UseClass_build_def
        setDependencyInformationIfNotExist_def withDependencies_def createBuildable_def
        nullary_reflection_def Builder_build_def validate_def missing_dependencies_def
        find_cycle_def visit.simps successors_def)

lemma chain_registry_resolves:
  "Container_get (Suc (Suc (Suc 0)))
     (Container (fmap_of_list
         [(A_id, ClassService A_id [] False), (B_id, ClassService B_id [A_id] False),
          (C_id, ClassService C_id [B_id] False)])) C_id
     = Some (Inr (New C_id [New B_id [New A_id []]]))"
  by (simp add: Container_get_def findServiceDataOrThrow_def)

section \<open>Service graphs: lookups and stored instances\<close>

lemma registered_no_error:
  "get n g i = Some (Inl e) \<Longrightarrow> dependencies_registered g \<Longrightarrow> fmlookup g i = None"
  "getDependencies n g ds = Some (Inl e) \<Longrightarrow> dependencies_registered g \<Longrightarrow>
     \<exists>d\<in>set ds. fmlookup g d = None"
proof (induction n g i and n g ds arbitrary: e and e rule: get_getDependencies.induct)
  case (1 g i)
  then show ?case by simp
next
  case (2 n g i)
  show ?case
  proof (cases "fmlookup g i")
    case None
    then show ?thesis .
  next
    case (Some sd)
    with "2.prems" have "getDependencies n g (dependencies sd) = Some (Inl e)"
      by (auto simp: findServiceDataOrThrow_def split: option.splits sum.splits)
    with "2.IH" [of sd e] Some "2.prems"(2)
    have "\<exists>d\<in>set (dependencies sd). fmlookup g d = None"
      by (simp add: findServiceDataOrThrow_def)
    with Some "2.prems"(2) show ?thesis
      unfolding dependencies_registered_def by blast
  qed
next
  case (3 n g)
  then show ?case by simp
next
  case (4 n g d ds)
  show ?case
  proof (cases "get n g d")
    case None
    with "4.prems" show ?thesis by simp
  next
    case (Some r)
    show ?thesis
    proof (cases r)
      case (Inl e')
      with Some "4.prems" have "get n g d = Some (Inl e)" by simp
      with "4.IH"(1) "4.prems"(2) show ?thesis by simp
    next
      case (Inr v)
      with Some "4.prems" have "getDependencies n g ds = Some (Inl e)"
        by (auto split: option.splits sum.splits)
      with "4.IH"(2) [OF Some [unfolded Inr]] "4.prems"(2) show ?thesis by simp
    qed
  qed
qed

lemma UseClass_build_class:
  "snd (UseClass_build r options u) = Inr sd \<Longrightarrow> \<exists>c ds a. sd = ClassService c ds a"
  by (auto simp: UseClass_build_def setDependencyInformationIfNotExist_def Let_def
           split: if_splits)

lemma build_strategy_leaves:
  "build_strategy r options p = Inr sd \<Longrightarrow>
     (\<forall>v ds. sd = InstanceService v ds \<longrightarrow> ds = [])
     \<and> (\<forall>f ds. sd = FactoryService f ds \<longrightarrow> ds = [])"
  by (cases p) (auto dest: UseClass_build_class)

lemma finalize_leaves:
  "finalize r options reg = Inr fin \<Longrightarrow> (i, sd) \<in> set fin \<Longrightarrow>
     (\<forall>v ds. sd = InstanceService v ds \<longrightarrow> ds = [])
     \<and> (\<forall>f ds. sd = FactoryService f ds \<longrightarrow> ds = [])"
proof (induction reg arbitrary: fin)
  case Nil
  then show ?case by simp
next
  case (Cons entry reg)
  obtain j p where entry: "entry = (j, p)" by (cases entry)
  from Cons.prems(1) entry obtain sd' fin' where
    built: "build_strategy r options p = Inr sd'" and
    rest: "finalize r options reg = Inr fin'" and fin: "fin = (j, sd') # fin'"
    by (auto split: sum.splits)
  from Cons.prems(2) fin have "(i, sd) = (j, sd') \<or> (i, sd) \<in> set fin'" by simp
  then show ?case
  proof
    assume "(i, sd) = (j, sd')"
    with built show ?thesis by (auto dest: build_strategy_leaves)
  next
    assume "(i, sd) \<in> set fin'"
    with Cons.IH [OF rest] show ?thesis by simp
  qed
qed

lemma built_container:
  assumes "Builder_build r options reg = Inr c"
  obtains fin where "finalize r options reg = Inr fin" and "validate fin = []"
    and "services c = fmap_of_list fin"
  using assms by (auto simp: Builder_build_def split: sum.splits if_splits)

lemma built_container_leaves:
  assumes "Builder_build r options reg = Inr c" and "fmlookup (services c) i = Some sd"
  shows "(\<forall>v ds. sd = InstanceService v ds \<longrightarrow> ds = [])
       \<and> (\<forall>f ds. sd = FactoryService f ds \<longrightarrow> ds = [])"
proof -
  from assms(1) obtain fin where fin: "finalize r options reg = Inr fin"
    and c: "services c = fmap_of_list fin" by (rule built_container)
  from assms(2) c have "(i, sd) \<in> set fin"
    by (auto simp: fmlookup_of_list dest: map_of_SomeD)
  with fin show ?thesis by (rule finalize_leaves)
qed

lemma built_container_dependencies_registered:
  assumes "Builder_build r options reg = Inr c"
  shows "dependencies_registered (services c)"
proof -
  from assms obtain fin where fin: "finalize r options reg = Inr fin"
    and valid: "validate fin = []" and c: "services c = fmap_of_list fin"
    by (rule built_container)
  have "fmlookup (services c) d \<noteq> None"
    if sd: "fmlookup (services c) i = Some sd" and d: "d \<in> set (dependencies sd)" for i sd d
  proof (cases sd)
    case (ClassService cl ds a)
    from sd c have "(i, sd) \<in> set fin"
      by (auto simp: fmlookup_of_list dest: map_of_SomeD)
    show ?thesis
    proof
      assume "fmlookup (services c) d = None"
      with c have "d \<notin> fst ` set fin"
        by (simp add: fmlookup_of_list map_of_eq_None_iff)
      with \<open>(i, sd) \<in> set fin\<close> d ClassService
      have "UnregisteredDependency i d \<in> set (missing_dependencies fin)"
        by (auto intro: missing_dependency_reported)
      with valid show False by (simp add: validate_def)
    qed
  next
    case (InstanceService v ds)
    with built_container_leaves [OF assms sd] d show ?thesis by simp
  next
    case (FactoryService f ds)
    with built_container_leaves [OF assms sd] d show ?thesis by simp
  qed
  then show ?thesis by (simp add: dependencies_registered_def)
qed

text \<open>
  C5.  \<open>get i\<close> on an identifier that is not a key throws the lookup error, whose
  message ends with the name of \<open>i\<close>.  On a service graph (every listed identifier is
  a key, as in every container the Builder returns) \<open>get i\<close> throws an error with that
  message exactly when \<open>i\<close> is not a key, and for a key it throws no error at all.  On
  any graph, the message of an error thrown by \<open>get\<close> names an identifier that is not a
  key.
\<close>

theorem unregistered_lookup:
  "(fmlookup g i = None \<longrightarrow>
      get (Suc n) g i = Some (Inl (UnregisteredLookup i))
      \<and> message (UnregisteredLookup i) = ''Service not registered for: '' @ name i)
   \<and> (dependencies_registered g \<longrightarrow>
        (fmlookup g i \<noteq> None \<longrightarrow> (\<forall>m e. get m g i \<noteq> Some (Inl e)))
        \<and> ((\<exists>e. get (Suc n) g i = Some (Inl e)
                 \<and> message e = ''Service not registered for: '' @ name i)
             \<longleftrightarrow> fmlookup g i = None))
   \<and> (Builder_build r options reg = Inr c \<longrightarrow>
        dependencies_registered (services c)
        \<and> (fmlookup (services c) i \<noteq> None \<longrightarrow> (\<forall>m e. Container_get m c i \<noteq> Some (Inl e))))
   \<and> (get n g i = Some (Inl e) \<longrightarrow>
        (\<exists>j. fmlookup g j = None \<and> message e = ''Service not registered for: '' @ name j))"
proof -
  have absent: "get (Suc n) g i = Some (Inl (UnregisteredLookup i))" if "fmlookup g i = None"
    using that by (simp add: findServiceDataOrThrow_def)
  have present: "get m g i \<noteq> Some (Inl e)"
    if "dependencies_registered g" and "fmlookup g i \<noteq> None" for g i m e
    using registered_no_error(1) [of m g i e] that by blast
  have built: "dependencies_registered (services c)" if "Builder_build r options reg = Inr c"
    using that by (rule built_container_dependencies_registered)
  have names: "\<exists>j. fmlookup g j = None \<and> message e = ''Service not registered for: '' @ name j"
    if "get n g i = Some (Inl e)"
    using get_error_names_absent(1) [OF that] by auto
  have message_iff:
    "(\<exists>e. get (Suc n) g i = Some (Inl e)
          \<and> message e = ''Service not registered for: '' @ name i)
       \<longleftrightarrow> fmlookup g i = None"
    if reg: "dependencies_registered g"
  proof
    assume "\<exists>e. get (Suc n) g i = Some (Inl e)
          \<and> message e = ''Service not registered for: '' @ name i"
    then obtain e' where "get (Suc n) g i = Some (Inl e')" by blast
    with present [OF reg, of i "Suc n" e'] show "fmlookup g i = None" by blast
  next
    assume "fmlookup g i = None"
    then have "get (Suc n) g i = Some (Inl (UnregisteredLookup i))" by (rule absent)
    then show "\<exists>e. get (Suc n) g i = Some (Inl e)
          \<and> message e = ''Service not registered for: '' @ name i"
      by (intro exI [of _ "UnregisteredLookup i"]) simp
  qed
  have container: "Container_get m c i \<noteq> Some (Inl e)"
    if "Builder_build r options reg = Inr c" and "fmlookup (services c) i \<noteq> None" for m e
    using present [OF built [OF that(1)] that(2)] by (simp add: Container_get_def)
  show ?thesis
  proof (intro conjI impI allI)
    show "get (Suc n) g i = Some (Inl (UnregisteredLookup i))" if "fmlookup g i = None"
      using that by (rule absent)
    show "message (UnregisteredLookup i) = ''Service not registered for: '' @ name i"
      by simp
    show "get m g i \<noteq> Some (Inl e)"
      if "dependencies_registered g" and "fmlookup g i \<noteq> None" for m e
      using that by (rule present)
    show "(\<exists>e. get (Suc n) g i = Some (Inl e)
          \<and> message e = ''Service not registered for: '' @ name i)
       \<longleftrightarrow> fmlookup g i = None" if "dependencies_registered g"
      using that by (rule message_iff)
    show "dependencies_registered (services c)" if "Builder_build r options reg = Inr c"
      using that by (rule built)
    show "Container_get m c i \<noteq> Some (Inl e)"
      if "Builder_build r options reg = Inr c" and "fmlookup (services c) i \<noteq> None" for m e
      using that by (rule container)
    show "\<exists>j. fmlookup g j = None \<and> message e = ''Service not registered for: '' @ name j"
      if "get n g i = Some (Inl e)"
      using that by (rule names)
  qed
qed

lemma example_graph_registered: "dependencies_registered example_graph"
  by (auto simp: dependencies_registered_def example_graph_def split: if_splits)

theorem unregistered_lookup_witness:
  "dependencies_registered example_graph
   \<and> fmlookup example_graph (Identifier 9 ''A'') = None
   \<and> get (Suc 0) example_graph (Identifier 9 ''A'')
       = Some (Inl (UnregisteredLookup (Identifier 9 ''A'')))
   \<and> message (UnregisteredLookup (Identifier 9 ''A'')) = ''Service not registered for: A''
   \<and> fmlookup example_graph A_id \<noteq> None
   \<and> (\<forall>m e. get m example_graph A_id \<noteq> Some (Inl e))"
  using unregistered_lookup [of example_graph "Identifier 9 ''A''" 0]
        unregistered_lookup [of example_graph A_id 0]
        example_graph_registered
  by (simp add: example_graph_def del: get.simps)

text \<open>
  C8.  For an identifier bound to a by-instance strategy, which holds a value and no
  dependencies, every \<open>get\<close> returns the stored value itself, the same at every call.
  This is so for every by-instance entry of a container the Builder returns.  Whenever
  \<open>get\<close> returns a value for a by-instance entry, it is the stored value.
\<close>

theorem instance_returned_as_stored:
  "(fmlookup g i = Some (InstanceService v []) \<longrightarrow>
      get (Suc n) g i = Some (Inr v) \<and> get (Suc m) g i = get (Suc n) g i)
   \<and> (Builder_build r options reg = Inr c \<and> fmlookup (services c) i = Some (InstanceService v ds)
        \<longrightarrow> ds = [] \<and> Container_get (Suc n) c i = Some (Inr v)
            \<and> Container_get (Suc m) c i = Container_get (Suc n) c i)
   \<and> (fmlookup g i = Some (InstanceService v ds) \<and> get k g i = Some (Inr x) \<longrightarrow> x = v)"
proof (intro conjI impI)
  show "get (Suc n) g i = Some (Inr v)" if "fmlookup g i = Some (InstanceService v [])"
    using that by (simp add: findServiceDataOrThrow_def)
  show "get (Suc m) g i = get (Suc n) g i" if "fmlookup g i = Some (InstanceService v [])"
    using that by (simp add: findServiceDataOrThrow_def)
  assume built: "Builder_build r options reg = Inr c
      \<and> fmlookup (services c) i = Some (InstanceService v ds)"
  then show empty: "ds = []" using built_container_leaves [of r options reg c i] by blast
  with built show "Container_get (Suc n) c i = Some (Inr v)"
    by (simp add: Container_get_def findServiceDataOrThrow_def)
  from empty built show "Container_get (Suc m) c i = Container_get (Suc n) c i"
    by (simp add: Container_get_def findServiceDataOrThrow_def)
next
  show "x = v" if "fmlookup g i = Some (InstanceService v ds) \<and> get k g i = Some (Inr x)"
    using that
    by (cases k) (auto simp: findServiceDataOrThrow_def split: option.splits sum.splits)
qed

lemma instance_registry_builds:
  "Builder_build nullary_reflection \<lparr>options_autowire = True\<rparr> instance_registry
     = Inr (Container (fmap_of_list
         [(B_id, InstanceService (Ref 7) []), (A_id, ClassService A_id [B_id] False)]))"
  by (simp add: instance_registry_def register_def useClass_def UseClass_build_def
        setDependencyInformationIfNotExist_def withDependencies_def createBuildable_def
        nullary_reflection_def Builder_build_def validate_def missing_dependencies_def
        find_cycle_def visit.simps successors_def)

theorem instance_returned_as_stored_witness:
  "fmlookup example_graph B_id = Some (InstanceService (Ref 7) [])
   \<and> get (Suc 0) example_graph B_id = Some (Inr (Ref 7))
   \<and> get (Suc (Suc 0)) example_graph B_id = Some (Inr (Ref 7))
   \<and> Builder_build nullary_reflection \<lparr>options_autowire = True\<rparr> instance_registry
       = Inr (Container (fmap_of_list
           [(B_id, InstanceService (Ref 7) []), (A_id, ClassService A_id [B_id] False)]))
   \<and> Container_get (Suc 0) (Container (fmap_of_list
           [(B_id, InstanceService (Ref 7) []), (A_id, ClassService A_id [B_id] False)])) B_id
       = Some (Inr (Ref 7))"
  using instance_returned_as_stored [of example_graph B_id "Ref 7" 0 "Suc 0"]
        instance_returned_as_stored
          [of _ _ _ 0 0 nullary_reflection "\<lparr>options_autowire = True\<rparr>" instance_registry
              "Container (fmap_of_list
                 [(B_id, InstanceService (Ref 7) []), (A_id, ClassService A_id [B_id] False)])"
              "[]"]
        instance_registry_builds
  by (simp add: example_graph_def Container_get_def findServiceDataOrThrow_def)

end
